theory Spec2Isabelle
  imports Complex_Main "HOL-Library.AList"
begin

section \<open>Response cache (AIProjectBrigade\_Enhanced.py, class ResponseCache)\<close>

text \<open>
  A Python \<^verbatim>\<open>str\<close> is modelled as a \<^typ>\<open>string\<close>, one character per code point
  (code points below 256). A \<^verbatim>\<open>datetime\<close> is an integer number of microseconds, the
  resolution of the type. \<^verbatim>\<open>timedelta(seconds=ttl)\<close> is \<open>ttl * 1000000\<close> of them when
  the number of whole days in \<open>ttl\<close> seconds, \<open>ttl div 86400\<close>, is at most 999999999 in
  magnitude, and raises \<^verbatim>\<open>OverflowError\<close> otherwise. An operation returns its result
  or the exception it raises, together with the cache it leaves.
  The dictionary \<^verbatim>\<open>self.cache\<close> is an association list in insertion order: assigning
  to a key that is present replaces its value in place, assigning to a new key appends,
  \<^verbatim>\<open>del\<close> removes the key. The order matters for \<^verbatim>\<open>min\<close>, which returns the
  first minimal key it meets.

  \<^verbatim>\<open>hashlib.md5\<close> is library code: the digest function is the parameter \<open>md5\<close>.
  \<^verbatim>\<open>datetime.now()\<close> is the parameter \<open>now\<close> of each operation. The method
  \<^verbatim>\<open>set\<close> is \<open>set_cache\<close>, and \<^verbatim>\<open>__init__\<close> is \<open>init\<close>.
\<close>

type_synonym datetime = int

type_synonym cache_dict = "(string \<times> (string \<times> datetime)) list"

record ResponseCache =
  max_size :: int
  ttl :: int
  cache :: cache_dict

datatype py_error = ValueError | TypeError | OSError | OverflowError

definition init :: "int \<Rightarrow> int \<Rightarrow> ResponseCache" where
  "init ms t = \<lparr>max_size = ms, ttl = t, cache = []\<rparr>"

definition hash_key :: "(string \<Rightarrow> string) \<Rightarrow> string \<Rightarrow> string \<Rightarrow> string" where
  "hash_key md5 prompt model = md5 (model @ '':'' @ prompt)"

definition timedelta_seconds :: "int \<Rightarrow> py_error + int" where
  "timedelta_seconds s =
     (if - 999999999 \<le> s div 86400 \<and> s div 86400 \<le> 999999999 then Inr (s * 1000000)
      else Inl OverflowError)"

definition get ::
  "(string \<Rightarrow> string) \<Rightarrow> ResponseCache \<Rightarrow> string \<Rightarrow> string \<Rightarrow> datetime
     \<Rightarrow> (py_error + string option) \<times> ResponseCache" where
  "get md5 c prompt model now =
     (let key = hash_key md5 prompt model in
      case map_of (cache c) key of
        None \<Rightarrow> (Inr None, c)
      | Some (response, timestamp) \<Rightarrow>
          (case timedelta_seconds (ttl c) of
             Inl e \<Rightarrow> (Inl e, c)
           | Inr d \<Rightarrow>
               if now - timestamp < d then (Inr (Some response), c)
               else (Inr None, c\<lparr>cache := AList.delete key (cache c)\<rparr>)))"

text \<open>
  \<^verbatim>\<open>min(self.cache, key=lambda k: self.cache[k][1])\<close>: the keys are visited in
  insertion order and the candidate is replaced only by a strictly smaller timestamp.
  On an empty dictionary \<^verbatim>\<open>min\<close> raises \<^verbatim>\<open>ValueError\<close>.
\<close>

fun min_from :: "(string \<times> (string \<times> datetime)) \<Rightarrow> cache_dict \<Rightarrow> string" where
  "min_from best [] = fst best"
| "min_from best (e # es) =
     (if snd (snd e) < snd (snd best) then min_from e es else min_from best es)"

definition oldest_key :: "cache_dict \<Rightarrow> py_error + string" where
  "oldest_key d = (case d of [] \<Rightarrow> Inl ValueError | e # es \<Rightarrow> Inr (min_from e es))"

definition set_cache ::
  "(string \<Rightarrow> string) \<Rightarrow> ResponseCache \<Rightarrow> string \<Rightarrow> string \<Rightarrow> string \<Rightarrow> datetime
     \<Rightarrow> py_error + ResponseCache" where
  "set_cache md5 c prompt model response now =
     (let key = hash_key md5 prompt model in
      if int (length (cache c)) \<ge> max_size c then
        (case oldest_key (cache c) of
           Inl e \<Rightarrow> Inl e
         | Inr k \<Rightarrow>
             Inr (c\<lparr>cache := AList.update key (response, now) (AList.delete k (cache c))\<rparr>))
      else Inr (c\<lparr>cache := AList.update key (response, now) (cache c)\<rparr>))"

definition clear :: "ResponseCache \<Rightarrow> ResponseCache" where
  "clear c = c\<lparr>cache := []\<rparr>"

text \<open>A dictionary holds each key once.\<close>

definition is_dict :: "cache_dict \<Rightarrow> bool" where
  "is_dict d = distinct (map fst d)"

text \<open>
  The size bound the class maintains, and a driver that applies a sequence of calls to a
  cache, stopping at the first call that raises.
\<close>

definition size_ok :: "ResponseCache \<Rightarrow> bool" where
  "size_ok c = (int (length (cache c)) \<le> max_size c)"

datatype cache_op =
    Get string string datetime
  | Set string string string datetime
  | Clear

fun step :: "(string \<Rightarrow> string) \<Rightarrow> ResponseCache \<Rightarrow> cache_op \<Rightarrow> py_error + ResponseCache" where
  "step md5 c (Get prompt model now) =
     (case get md5 c prompt model now of (Inl e, c') \<Rightarrow> Inl e | (Inr r, c') \<Rightarrow> Inr c')"
| "step md5 c (Set prompt model response now) = set_cache md5 c prompt model response now"
| "step md5 c Clear = Inr (clear c)"

fun run :: "(string \<Rightarrow> string) \<Rightarrow> ResponseCache \<Rightarrow> cache_op list \<Rightarrow> py_error + ResponseCache" where
  "run md5 c [] = Inr c"
| "run md5 c (x # xs) = (case step md5 c x of Inl e \<Rightarrow> Inl e | Inr c' \<Rightarrow> run md5 c' xs)"

text \<open>
  The response and time of the last \<^verbatim>\<open>set\<close> on a key among a sequence of calls.
\<close>

fun last_set :: "(string \<Rightarrow> string) \<Rightarrow> cache_op list \<Rightarrow> string \<Rightarrow> (string \<times> datetime) option" where
  "last_set md5 [] k = None"
| "last_set md5 (Set prompt model response now # xs) k =
     (case last_set md5 xs k of
        Some v \<Rightarrow> Some v
      | None \<Rightarrow> if hash_key md5 prompt model = k then Some (response, now) else None)"
| "last_set md5 (x # xs) k = last_set md5 xs k"

text \<open>The invariant of a cache constructed with \<open>max_size \<ge> 1\<close>.\<close>

definition cache_inv :: "ResponseCache \<Rightarrow> bool" where
  "cache_inv c = (1 \<le> max_size c \<and> size_ok c \<and> is_dict (cache c))"

section \<open>Python floats\<close>

text \<open>
  A Python float is a finite number or an infinity; the largest finite one is
  \<open>(2\<^sup>5\<^sup>3 - 1) * 2\<^sup>9\<^sup>7\<^sup>1\<close>.
\<close>

datatype pyfloat = Finite real | PosInf | NegInf

definition max_double :: real where
  "max_double = (2 ^ 53 - 1) * 2 ^ 971"

section \<open>Validation report (validation.py, class ValidationReport)\<close>

datatype CheckStatus = PASSED | FAILED | WARNING | SKIPPED

datatype CheckCategory = STRUCTURE | CODE | DOCUMENTATION | CONFIGURATION | SECURITY | DEVOPS

record ValidationResult =
  name :: string
  status :: CheckStatus
  category :: CheckCategory
  message :: string
  details :: "string option"
  severity :: string

record ValidationReport =
  project_dir :: string
  results :: "ValidationResult list"
  passed :: int
  failed :: int
  warnings :: int
  skipped :: int

text \<open>\<^verbatim>\<open>ValidationReport(project_dir=d)\<close>: every other field takes its default.\<close>

definition new_report :: "string \<Rightarrow> ValidationReport" where
  "new_report d = \<lparr>project_dir = d, results = [], passed = 0, failed = 0, warnings = 0, skipped = 0\<rparr>"

definition add_result :: "ValidationReport \<Rightarrow> ValidationResult \<Rightarrow> ValidationReport" where
  "add_result self result =
     (let self = self\<lparr>results := results self @ [result]\<rparr> in
      if status result = PASSED then self\<lparr>passed := passed self + 1\<rparr>
      else if status result = FAILED then self\<lparr>failed := failed self + 1\<rparr>
      else if status result = WARNING then self\<lparr>warnings := warnings self + 1\<rparr>
      else self\<lparr>skipped := skipped self + 1\<rparr>)"

definition success :: "ValidationReport \<Rightarrow> bool" where
  "success self = (failed self = 0)"


definition count_status :: "CheckStatus \<Rightarrow> ValidationResult list \<Rightarrow> int" where
  "count_status s rs = int (length (filter (\<lambda>r. status r = s) rs))"

text \<open>Each counter is the number of stored results with its status.\<close>

definition counters_ok :: "ValidationReport \<Rightarrow> bool" where
  "counters_ok r =
     (passed r = count_status PASSED (results r) \<and>
      failed r = count_status FAILED (results r) \<and>
      warnings r = count_status WARNING (results r) \<and>
      skipped r = int (length (filter (\<lambda>x. status x \<noteq> PASSED \<and> status x \<noteq> FAILED \<and> status x \<noteq> WARNING) (results r))))"

section \<open>Retry decorator (AIProjectBrigade\_Enhanced.py, retry\_with\_backoff)\<close>

text \<open>
  The wrapped function is given by the outcome of each of its invocations: invocation
  number \<open>i\<close> (from 0) returns a value or raises. The handler is
  \<^verbatim>\<open>except Exception\<close>, so an exception that is not an instance of
  \<^verbatim>\<open>Exception\<close> (\<open>BaseExc\<close>: \<^verbatim>\<open>KeyboardInterrupt\<close>, \<^verbatim>\<open>SystemExit\<close>) leaves the
  wrapper at once. The wrapper returns its result together with the trace of what it
  did: the invocations and the sleeps, in order.

  \<^verbatim>\<open>base_delay\<close> is a float, as annotated, and \<^verbatim>\<open>2 ** attempt\<close> is an integer. Their
  product converts the integer to a float first, which raises \<^verbatim>\<open>OverflowError\<close> from
  \<open>2\<^sup>1\<^sup>0\<^sup>2\<^sup>4\<close> on; below that the conversion is exact, and so is the product of a
  float by the power of two, unless it exceeds the largest float, where it is an
  infinity. \<^verbatim>\<open>time.sleep\<close> is library code: it is the parameter \<open>time_sleep\<close>, which
  tells for each float whether the call returns or which exception it raises. An
  exception raised inside the handler, by the product or by \<^verbatim>\<open>time.sleep\<close>, leaves the
  wrapper. \<^verbatim>\<open>raise last_exception\<close> with \<^verbatim>\<open>last_exception\<close> still \<^verbatim>\<open>None\<close> raises
  \<^verbatim>\<open>TypeError\<close>.
\<close>

datatype 'e exn = Exc 'e | BaseExc 'e

datatype ('a, 'e) outcome = Returns 'a | Raises "'e exn"

datatype event = Invoke | Sleep pyfloat

datatype ('a, 'e) wrapper_result =
    Returned 'a
  | Raised "'e exn"
  | RaiseNone_TypeError
  | Handler_raised py_error

definition float_product :: "real \<Rightarrow> nat \<Rightarrow> pyfloat" where
  "float_product base_delay attempt =
     (let p = base_delay * 2 ^ attempt in
      if max_double < p then PosInf else if p < - max_double then NegInf else Finite p)"

function wrapper_loop ::
  "(pyfloat \<Rightarrow> py_error option) \<Rightarrow> int \<Rightarrow> real \<Rightarrow> (nat \<Rightarrow> ('a, 'e) outcome) \<Rightarrow> nat
     \<Rightarrow> 'e option \<Rightarrow> event list \<Rightarrow> ('a, 'e) wrapper_result \<times> event list" where
  "wrapper_loop time_sleep max_retries base_delay func attempt last_exception trace =
     (if int attempt < max_retries then
        (case func attempt of
           Returns v \<Rightarrow> (Returned v, trace @ [Invoke])
         | Raises (BaseExc b) \<Rightarrow> (Raised (BaseExc b), trace @ [Invoke])
         | Raises (Exc e) \<Rightarrow>
             if int attempt < max_retries - 1 then
               (if 1024 \<le> attempt then (Handler_raised OverflowError, trace @ [Invoke])
                else
                  (let delay = float_product base_delay attempt in
                   case time_sleep delay of
                     Some err \<Rightarrow> (Handler_raised err, trace @ [Invoke])
                   | None \<Rightarrow>
                       wrapper_loop time_sleep max_retries base_delay func (Suc attempt) (Some e)
                         (trace @ [Invoke, Sleep delay])))
             else wrapper_loop time_sleep max_retries base_delay func (Suc attempt) (Some e)
                    (trace @ [Invoke]))
      else (case last_exception of
              None \<Rightarrow> (RaiseNone_TypeError, trace)
            | Some e \<Rightarrow> (Raised (Exc e), trace)))"
  by pat_completeness auto
termination
  by (relation "measure (\<lambda>(time_sleep, max_retries, base_delay, func, attempt, last_exception, trace).
        nat (max_retries - int attempt))") auto

definition wrapper ::
  "(pyfloat \<Rightarrow> py_error option) \<Rightarrow> int \<Rightarrow> real \<Rightarrow> (nat \<Rightarrow> ('a, 'e) outcome)
     \<Rightarrow> ('a, 'e) wrapper_result \<times> event list" where
  "wrapper time_sleep max_retries base_delay func =
     wrapper_loop time_sleep max_retries base_delay func 0 None []"

text \<open>
  The trace of failed attempts \<open>a, \<dots>, k - 1\<close>, each followed by its sleep, and the
  number of invocations in a trace.
\<close>

definition backoff :: "real \<Rightarrow> nat \<Rightarrow> nat \<Rightarrow> event list" where
  "backoff base_delay a k =
     concat (map (\<lambda>i. [Invoke, Sleep (float_product base_delay i)]) [a..<k])"

definition invocations :: "event list \<Rightarrow> nat" where
  "invocations trace = length (filter (\<lambda>ev. ev = Invoke) trace)"

text \<open>
  Two wrapped functions to run the wrapper on, and a \<^verbatim>\<open>time.sleep\<close>: the one of CPython
  where the delay is counted in nanoseconds in 64 bits, which refuses a negative delay
  with \<^verbatim>\<open>ValueError\<close> and one beyond \<open>2\<^sup>6\<^sup>3 - 1\<close> nanoseconds with
  \<^verbatim>\<open>OverflowError\<close>.
\<close>

definition fails_then_returns :: "nat \<Rightarrow> (string, string) outcome" where
  "fails_then_returns i = (if i = 0 then Raises (Exc ''boom'') else Returns ''ok'')"

definition always_fails :: "nat \<Rightarrow> (string, string) outcome" where
  "always_fails i = Raises (Exc (if i = 0 then ''e0'' else if i = 1 then ''e1'' else ''e2''))"

definition cpython_sleep :: "pyfloat \<Rightarrow> py_error option" where
  "cpython_sleep delay =
     (case delay of
        Finite d \<Rightarrow>
          if d < 0 then Some ValueError
          else if 9223372036854775807 < d * 1000000000 then Some OverflowError
          else None
      | PosInf \<Rightarrow> Some OverflowError
      | NegInf \<Rightarrow> Some ValueError)"

section \<open>JSON parsing with fallback (AIProjectBrigade\_Enhanced.py, \_parse\_json)\<close>

text \<open>
  \<^verbatim>\<open>str.strip()\<close> removes the leading and trailing characters for which
  \<^verbatim>\<open>str.isspace\<close> holds; below code point 256 these are 9 to 13, 28 to 32, 133 and 160.
  \<^verbatim>\<open>json.loads\<close> is library code: it is the parameter \<open>loads\<close>, which returns the
  decoded value or raises. The handler is \<^verbatim>\<open>except json.JSONDecodeError\<close>; any other
  exception of \<^verbatim>\<open>json.loads\<close> leaves the function.

  \<open>cleaned\<close> is the value of the variable \<^verbatim>\<open>response\<close> after the three
  reassignments at the head of the \<^verbatim>\<open>try\<close> block; the last \<^verbatim>\<open>strip()\<close> is applied
  to the argument of \<^verbatim>\<open>json.loads\<close> only. The result is the decoded value or the
  dictionary literal of the handler.
\<close>

definition isspace :: "char \<Rightarrow> bool" where
  "isspace c = (of_char c \<in> {9, 10, 11, 12, 13, 28, 29, 30, 31, 32, 133, 160 :: nat})"

definition strip :: "string \<Rightarrow> string" where
  "strip s = rev (dropWhile isspace (rev (dropWhile isspace s)))"

definition startswith :: "string \<Rightarrow> string \<Rightarrow> bool" where
  "startswith s p = (take (length p) s = p)"

definition endswith :: "string \<Rightarrow> string \<Rightarrow> bool" where
  "endswith s p = (length p \<le> length s \<and> drop (length s - length p) s = p)"

datatype json_error = JSONDecodeError | RecursionError

datatype 'j parse_result = Decoded 'j | Dict "(string \<times> string) list"

definition cleaned :: "string \<Rightarrow> string" where
  "cleaned response =
     (let response = strip response;
          response = (if startswith response ''```json'' then drop 7 response
                      else if startswith response ''```'' then drop 3 response
                      else response);
          response = (if endswith response ''```'' then take (length response - 3) response
                      else response)
      in response)"

definition parse_json :: "(string \<Rightarrow> json_error + 'j) \<Rightarrow> string \<Rightarrow> json_error + 'j parse_result" where
  "parse_json loads response =
     (let response = cleaned response in
      case loads (strip response) of
        Inr v \<Rightarrow> Inr (Decoded v)
      | Inl JSONDecodeError \<Rightarrow> Inr (Dict [(''raw_response'', response)])
      | Inl e \<Rightarrow> Inl e)"

text \<open>The two conditional statements of the cleaning, one by one.\<close>

definition strip_prefix :: "string \<Rightarrow> string" where
  "strip_prefix r = (if startswith r ''```json'' then drop 7 r
                     else if startswith r ''```'' then drop 3 r else r)"

definition strip_suffix :: "string \<Rightarrow> string" where
  "strip_suffix r = (if endswith r ''```'' then take (length r - 3) r else r)"

text \<open>Two decoders to run the parser on.\<close>

definition loads_fails :: "string \<Rightarrow> json_error + int" where
  "loads_fails s = Inl JSONDecodeError"

definition loads_one :: "string \<Rightarrow> json_error + int" where
  "loads_one s = (if s = ''1'' then Inr 1 else Inl JSONDecodeError)"

section \<open>Profile suggestion (profiles.py, ProfileManager.suggest\_profile)\<close>

text \<open>
  \<^verbatim>\<open>str.lower()\<close> on code points below 256 maps \<open>A\<close> to \<open>Z\<close> and the capital letters
  192 to 222 (215, the multiplication sign, apart) to the code point 32 higher.
  \<^verbatim>\<open>keyword in description\<close> is the substring test. The keyword table is a dictionary
  literal, kept in its order: \<^verbatim>\<open>max(scores, key=scores.get)\<close> visits the profiles in
  that order and replaces its candidate only by a strictly greater score, and raises
  \<^verbatim>\<open>ValueError\<close> on an empty dictionary.
\<close>

definition lower_char :: "char \<Rightarrow> char" where
  "lower_char c =
     (let n = (of_char c :: nat) in
      if (65 \<le> n \<and> n \<le> 90) \<or> (192 \<le> n \<and> n \<le> 222 \<and> n \<noteq> 215) then char_of (n + 32) else c)"

definition lower :: "string \<Rightarrow> string" where
  "lower s = map lower_char s"

fun contains :: "string \<Rightarrow> string \<Rightarrow> bool" where
  "contains keyword [] = (keyword = [])"
| "contains keyword (c # cs) = (take (length keyword) (c # cs) = keyword \<or> contains keyword cs)"

definition keyword_map :: "(string \<times> string list) list" where
  "keyword_map =
     [(''ml_project'', [''machine learning'', ''ml'', ''ai model'', ''training'', ''prediction'',
                        ''neural'', ''deep learning'']),
      (''web_app'', [''website'', ''web app'', ''dashboard'', ''portal'', ''saas'', ''frontend'',
                     ''react'', ''vue'']),
      (''mobile_app'', [''mobile'', ''ios'', ''android'', ''react native'', ''flutter'', ''app store'']),
      (''cli_tool'', [''cli'', ''command line'', ''terminal'', ''script'', ''automation tool'']),
      (''microservices'', [''microservice'', ''distributed'', ''kubernetes'', ''k8s'',
                           ''multiple services'']),
      (''api_backend'', [''api'', ''rest'', ''backend only'', ''server'', ''endpoint'']),
      (''data_pipeline'', [''etl'', ''pipeline'', ''data processing'', ''airflow'', ''orchestration'']),
      (''iot_project'', [''iot'', ''sensor'', ''device'', ''embedded'', ''mqtt'', ''hardware'']),
      (''chrome_extension'', [''chrome extension'', ''firefox addon'', ''browser plugin'',
                              ''manifest.json'']),
      (''desktop_app'', [''desktop'', ''gui'', ''windows app'', ''mac app'', ''tkinter'', ''qt'',
                         ''pyqt'', ''electron''])]"

definition count_keywords :: "string list \<Rightarrow> string \<Rightarrow> int" where
  "count_keywords keywords description = int (length (filter (\<lambda>keyword. contains keyword description) keywords))"

definition scores_of :: "(string \<times> string list) list \<Rightarrow> string \<Rightarrow> (string \<times> int) list" where
  "scores_of km description = map (\<lambda>(profile, keywords). (profile, count_keywords keywords description)) km"

fun max_from :: "(string \<times> int) \<Rightarrow> (string \<times> int) list \<Rightarrow> string \<times> int" where
  "max_from best [] = best"
| "max_from best (e # es) = (if snd best < snd e then max_from e es else max_from best es)"

definition suggest_from :: "(string \<times> string list) list \<Rightarrow> string \<Rightarrow> py_error + string" where
  "suggest_from km description =
     (let description = lower description;
          scores = scores_of km description in
      case scores of
        [] \<Rightarrow> Inl ValueError
      | s # ss \<Rightarrow>
          (let best_match = max_from s ss in
           Inr (if snd best_match > 0 then fst best_match else ''web_app'')))"

definition suggest_profile :: "string \<Rightarrow> py_error + string" where
  "suggest_profile description = suggest_from keyword_map description"

section \<open>Parallel code generation (AIProjectBrigade\_Enhanced.py, \_parallel\_code\_generation)\<close>














type_synonym results = "(string \<times> string list) list"














section \<open>Properties of the response cache\<close>

lemma map_of_update_same: "map_of (AList.update k v d) k = Some v"
  by (simp add: update_conv')

lemma set_cache_stores:
  assumes "set_cache md5 c prompt model response t0 = Inr c'"
  shows "map_of (cache c') (hash_key md5 prompt model) = Some (response, t0)"
    and "ttl c' = ttl c" and "max_size c' = max_size c"
  using assms
  by (auto simp: set_cache_def Let_def map_of_update_same split: if_splits sum.splits)

text \<open>
  Claim C1, with the range of \<^verbatim>\<open>timedelta\<close>. After \<^verbatim>\<open>set\<close> has stored a response at
  time \<open>t0\<close>, and when \<open>ttl\<close> seconds is a duration that \<^verbatim>\<open>timedelta\<close> can hold, a
  \<^verbatim>\<open>get\<close> with the same prompt and model at time \<open>t1\<close> returns that response, and
  leaves the cache as it is, when \<open>t1 - t0\<close> is strictly less than \<open>ttl\<close> seconds;
  otherwise it returns \<^verbatim>\<open>None\<close> and the cache it leaves no longer holds the key. When
  \<open>ttl\<close> is outside that range, \<^verbatim>\<open>get\<close> raises \<^verbatim>\<open>OverflowError\<close> and leaves the cache
  as it is.
\<close>

theorem set_then_get_within_ttl:
  assumes "set_cache md5 c prompt model response t0 = Inr c'"
  shows "get md5 c' prompt model t1 =
           (if - 999999999 \<le> ttl c div 86400 \<and> ttl c div 86400 \<le> 999999999 then
              (if t1 - t0 < ttl c * 1000000 then (Inr (Some response), c')
               else (Inr None, c'\<lparr>cache := AList.delete (hash_key md5 prompt model) (cache c')\<rparr>))
            else (Inl OverflowError, c'))
         \<and> map_of (AList.delete (hash_key md5 prompt model) (cache c'))
               (hash_key md5 prompt model) = None"
proof -
  have "map_of (cache c') (hash_key md5 prompt model) = Some (response, t0)" "ttl c' = ttl c"
    using set_cache_stores [OF assms] by simp_all
  then show ?thesis
    by (simp add: get_def Let_def delete_conv' timedelta_seconds_def)
qed

theorem set_then_get_within_ttl_witness:
  "set_cache id (init 1 10) ''hi'' ''m'' ''resp'' 5
     = Inr \<lparr>max_size = 1, ttl = 10, cache = [(''m:hi'', (''resp'', 5))]\<rparr>
   \<and> get id \<lparr>max_size = 1, ttl = 10, cache = [(''m:hi'', (''resp'', 5))]\<rparr> ''hi'' ''m'' 10000004
     = (Inr (Some ''resp''), \<lparr>max_size = 1, ttl = 10, cache = [(''m:hi'', (''resp'', 5))]\<rparr>)
   \<and> get id \<lparr>max_size = 1, ttl = 10, cache = [(''m:hi'', (''resp'', 5))]\<rparr> ''hi'' ''m'' 10000005
     = (Inr None, \<lparr>max_size = 1, ttl = 10, cache = []\<rparr>)"
proof -
  have s: "set_cache id (init 1 10) ''hi'' ''m'' ''resp'' 5
     = Inr \<lparr>max_size = 1, ttl = 10, cache = [(''m:hi'', (''resp'', 5))]\<rparr>"
    by (simp add: set_cache_def init_def hash_key_def)
  show ?thesis
    using s set_then_get_within_ttl [OF s, of 10000004] set_then_get_within_ttl [OF s, of 10000005]
    by (simp add: init_def hash_key_def AList.delete_eq)
qed

text \<open>
  Claim C1 as stated, for every \<open>ttl\<close>, fails: with \<open>ttl = 10\<^sup>1\<^sup>5\<close> seconds, a \<^verbatim>\<open>get\<close>
  one microsecond after the \<^verbatim>\<open>set\<close> does not return the response; it raises
  \<^verbatim>\<open>OverflowError\<close>.
\<close>

theorem get_huge_ttl_counterexample:
  "set_cache id (init 1 1000000000000000) ''hi'' ''m'' ''resp'' 5
     = Inr \<lparr>max_size = 1, ttl = 1000000000000000, cache = [(''m:hi'', (''resp'', 5))]\<rparr>
   \<and> get id \<lparr>max_size = 1, ttl = 1000000000000000, cache = [(''m:hi'', (''resp'', 5))]\<rparr>
         ''hi'' ''m'' 6
     = (Inl OverflowError,
        \<lparr>max_size = 1, ttl = 1000000000000000, cache = [(''m:hi'', (''resp'', 5))]\<rparr>)"
  by (simp add: set_cache_def init_def hash_key_def get_def timedelta_seconds_def)

lemma min_from_mem: "min_from b es \<in> fst ` set (b # es)"
  by (induction es arbitrary: b) auto

lemma min_from_least:
  "\<exists>e \<in> set (b # es). fst e = min_from b es \<and> (\<forall>x \<in> set (b # es). snd (snd e) \<le> snd (snd x))"
proof (induction es arbitrary: b)
  case Nil
  show ?case by simp
next
  case (Cons a es)
  show ?case
  proof (cases "snd (snd a) < snd (snd b)")
    case True
    from Cons.IH [of a] obtain e where
      h: "e \<in> set (a # es)" "fst e = min_from a es" "\<forall>x \<in> set (a # es). snd (snd e) \<le> snd (snd x)"
      by blast
    from h(3) True have "snd (snd e) \<le> snd (snd b)" by force
    with h True show ?thesis by auto
  next
    case False
    from Cons.IH [of b] obtain e where
      h: "e \<in> set (b # es)" "fst e = min_from b es" "\<forall>x \<in> set (b # es). snd (snd e) \<le> snd (snd x)"
      by blast
    from h(3) False have "snd (snd e) \<le> snd (snd a)" by force
    with h False show ?thesis by auto
  qed
qed

lemma oldest_key_least:
  assumes "d \<noteq> []"
  shows "\<exists>e \<in> set d. oldest_key d = Inr (fst e) \<and> (\<forall>x \<in> set d. snd (snd e) \<le> snd (snd x))"
proof (cases d)
  case Nil with assms show ?thesis by simp
next
  case (Cons b es)
  from min_from_least [of b es] obtain e where
    "e \<in> set (b # es)" "fst e = min_from b es" "\<forall>x \<in> set (b # es). snd (snd e) \<le> snd (snd x)"
    by blast
  moreover have "oldest_key d = Inr (min_from b es)"
    using Cons by (simp add: oldest_key_def)
  ultimately show ?thesis using Cons by metis
qed

lemma length_delete_mem:
  assumes "distinct (map fst d)" "(k, v) \<in> set d"
  shows "Suc (length (AList.delete k d)) = length d"
  using assms
proof (induction d)
  case Nil then show ?case by simp
next
  case (Cons e d)
  show ?case
  proof (cases "fst e = k")
    case True
    with Cons.prems have "k \<notin> fst ` set d" by auto
    then have "AList.delete k d = d"
      by (induction d) (auto simp: AList.delete_eq)
    with True show ?thesis by (cases e) (simp add: AList.delete_eq)
  next
    case False
    with Cons show ?thesis by (cases e) (auto simp: AList.delete_eq)
  qed
qed

lemma set_delete_mem:
  assumes "distinct (map fst d)" "(k, v) \<in> set d"
  shows "set (AList.delete k d) = set d - {(k, v)}"
proof -
  have "\<And>v'. (k, v') \<in> set d \<Longrightarrow> v' = v"
    using assms by (meson eq_key_imp_eq_value)
  then show ?thesis by (auto simp: AList.delete_eq)
qed

lemma length_update_le: "length (AList.update k v d) \<le> Suc (length d)"
  by (induction d) auto

lemma length_delete_le: "length (AList.delete k d) \<le> length d"
  by (simp add: AList.delete_eq)

lemma is_dict_update: "is_dict d \<Longrightarrow> is_dict (AList.update k v d)"
  by (simp add: is_dict_def distinct_update)

lemma is_dict_delete: "is_dict d \<Longrightarrow> is_dict (AList.delete k d)"
  by (simp add: is_dict_def distinct_delete)

lemma get_preserves:
  "max_size (snd (get md5 c p m now)) = max_size c"
  "ttl (snd (get md5 c p m now)) = ttl c"
  "length (cache (snd (get md5 c p m now))) \<le> length (cache c)"
  "is_dict (cache c) \<Longrightarrow> is_dict (cache (snd (get md5 c p m now)))"
  by (auto simp: get_def Let_def length_delete_le is_dict_delete split: option.splits sum.splits)

lemma get_hit_unchanged:
  assumes "get md5 c p m now = (Inr (Some r), c')"
  shows "c' = c"
    and "\<exists>ts d. map_of (cache c) (hash_key md5 p m) = Some (r, ts)
           \<and> timedelta_seconds (ttl c) = Inr d \<and> now - ts < d"
  using assms by (auto simp: get_def Let_def split: option.splits if_splits sum.splits)

lemma set_cache_full:
  assumes "is_dict (cache c)" "cache c \<noteq> []" "max_size c \<le> int (length (cache c))"
  shows "\<exists>e \<in> set (cache c).
           (\<forall>x \<in> set (cache c). snd (snd e) \<le> snd (snd x))
         \<and> oldest_key (cache c) = Inr (fst e)
         \<and> Suc (length (AList.delete (fst e) (cache c))) = length (cache c)
         \<and> set (AList.delete (fst e) (cache c)) = set (cache c) - {e}
         \<and> set_cache md5 c p m r now =
             Inr (c\<lparr>cache := AList.update (hash_key md5 p m) (r, now) (AList.delete (fst e) (cache c))\<rparr>)"
proof -
  from oldest_key_least [OF assms(2)] obtain e where
    e: "e \<in> set (cache c)" "oldest_key (cache c) = Inr (fst e)"
       "\<forall>x \<in> set (cache c). snd (snd e) \<le> snd (snd x)" by blast
  have d: "distinct (map fst (cache c))" using assms(1) by (simp add: is_dict_def)
  have m: "(fst e, snd e) \<in> set (cache c)" using e(1) by simp
  have l: "Suc (length (AList.delete (fst e) (cache c))) = length (cache c)"
    using length_delete_mem [OF d m] .
  have s: "set (AList.delete (fst e) (cache c)) = set (cache c) - {e}"
    using set_delete_mem [OF d m] by simp
  have sc: "set_cache md5 c p m r now =
             Inr (c\<lparr>cache := AList.update (hash_key md5 p m) (r, now) (AList.delete (fst e) (cache c))\<rparr>)"
    using assms(3) e(2) by (simp add: set_cache_def Let_def)
  show ?thesis
  proof (rule bexI [OF _ e(1)], intro conjI)
    show "\<forall>x \<in> set (cache c). snd (snd e) \<le> snd (snd x)" by (rule e(3))
    show "oldest_key (cache c) = Inr (fst e)" by (rule e(2))
    show "Suc (length (AList.delete (fst e) (cache c))) = length (cache c)" by (rule l)
    show "set (AList.delete (fst e) (cache c)) = set (cache c) - {e}" by (rule s)
    show "set_cache md5 c p m r now =
             Inr (c\<lparr>cache := AList.update (hash_key md5 p m) (r, now) (AList.delete (fst e) (cache c))\<rparr>)"
      by (rule sc)
  qed
qed

lemma set_cache_ok:
  assumes "1 \<le> max_size c" "size_ok c" "is_dict (cache c)"
  shows "\<exists>c'. set_cache md5 c p m r now = Inr c' \<and> size_ok c' \<and> is_dict (cache c')
              \<and> max_size c' = max_size c \<and> ttl c' = ttl c"
proof (cases "max_size c \<le> int (length (cache c))")
  case True
  with assms(1) have ne: "cache c \<noteq> []" by auto
  from oldest_key_least [OF ne] obtain e where
    e: "e \<in> set (cache c)" "oldest_key (cache c) = Inr (fst e)" by blast
  let ?d = "AList.update (hash_key md5 p m) (r, now) (AList.delete (fst e) (cache c))"
  have d: "distinct (map fst (cache c))" using assms(3) by (simp add: is_dict_def)
  have m: "(fst e, snd e) \<in> set (cache c)" using e(1) by simp
  have l: "Suc (length (AList.delete (fst e) (cache c))) = length (cache c)"
    using length_delete_mem [OF d m] .
  have s: "set_cache md5 c p m r now = Inr (c\<lparr>cache := ?d\<rparr>)"
    using True e(2) by (simp add: set_cache_def Let_def)
  have "length ?d \<le> Suc (length (AList.delete (fst e) (cache c)))"
    by (rule length_update_le)
  with l have "length ?d \<le> length (cache c)" by linarith
  with assms(2) have so: "size_ok (c\<lparr>cache := ?d\<rparr>)"
    by (simp add: size_ok_def)
  have di: "is_dict (cache (c\<lparr>cache := ?d\<rparr>))"
    using assms(3) by (simp add: is_dict_update is_dict_delete)
  show ?thesis
    by (rule exI [of _ "c\<lparr>cache := ?d\<rparr>"]) (simp only: s so di, simp)
next
  case False
  let ?d = "AList.update (hash_key md5 p m) (r, now) (cache c)"
  have s: "set_cache md5 c p m r now = Inr (c\<lparr>cache := ?d\<rparr>)"
    using False by (simp add: set_cache_def Let_def)
  have "length ?d \<le> Suc (length (cache c))"
    by (rule length_update_le)
  with False have so: "size_ok (c\<lparr>cache := ?d\<rparr>)"
    by (simp add: size_ok_def)
  have di: "is_dict (cache (c\<lparr>cache := ?d\<rparr>))"
    using assms(3) by (simp add: is_dict_update)
  show ?thesis
    by (rule exI [of _ "c\<lparr>cache := ?d\<rparr>"]) (simp only: s so di, simp)
qed

lemma step_inv:
  assumes "cache_inv c" "step md5 c x = Inr c'"
  shows "cache_inv c' \<and> max_size c' = max_size c \<and> ttl c' = ttl c"
proof (cases x)
  case (Get p m now)
  with assms(2) have c': "c' = snd (get md5 c p m now)" by (auto split: prod.splits sum.splits)
  have "int (length (cache (snd (get md5 c p m now)))) \<le> int (length (cache c))"
    using get_preserves(3) [of md5 c p m now] by linarith
  with assms(1) show ?thesis
    unfolding c' by (simp add: cache_inv_def size_ok_def get_preserves(1,2,4))
next
  case (Set p m r now)
  from assms(1) have h: "1 \<le> max_size c" "size_ok c" "is_dict (cache c)"
    by (simp_all add: cache_inv_def)
  from set_cache_ok [OF h, of md5 p m r now] Set h assms(2) show ?thesis
    by (auto simp: cache_inv_def)
next
  case Clear
  with assms show ?thesis by (auto simp: cache_inv_def size_ok_def clear_def is_dict_def)
qed

lemma step_returns:
  assumes "cache_inv c" "timedelta_seconds (ttl c) = Inr d"
  shows "\<exists>c'. step md5 c x = Inr c'"
proof (cases x)
  case (Get p m now)
  with assms(2) show ?thesis
    by (auto simp: get_def Let_def split: option.splits)
next
  case (Set p m r now)
  from assms(1) have h: "1 \<le> max_size c" "size_ok c" "is_dict (cache c)"
    by (simp_all add: cache_inv_def)
  from set_cache_ok [OF h, of md5 p m r now] Set show ?thesis by auto
next
  case Clear
  then show ?thesis by simp
qed

lemma run_inv:
  assumes "cache_inv c" "run md5 c xs = Inr c'"
  shows "cache_inv c' \<and> max_size c' = max_size c \<and> ttl c' = ttl c"
  using assms
proof (induction xs arbitrary: c)
  case Nil then show ?case by simp
next
  case (Cons x xs)
  from Cons.prems(2) obtain c1 where c1: "step md5 c x = Inr c1" "run md5 c1 xs = Inr c'"
    by (auto split: sum.splits)
  from step_inv [OF Cons.prems(1) c1(1)] have
    i: "cache_inv c1" and e: "max_size c1 = max_size c" "ttl c1 = ttl c" by simp_all
  from Cons.IH [OF i c1(2)] e show ?case by simp
qed

lemma run_returns:
  assumes "cache_inv c" "timedelta_seconds (ttl c) = Inr d"
  shows "\<exists>c'. run md5 c xs = Inr c'"
  using assms
proof (induction xs arbitrary: c)
  case Nil then show ?case by simp
next
  case (Cons x xs)
  from step_returns [OF Cons.prems, of md5 x] obtain c1 where c1: "step md5 c x = Inr c1" by blast
  from step_inv [OF Cons.prems(1) c1] have i: "cache_inv c1" and t: "ttl c1 = ttl c" by simp_all
  from Cons.prems(2) t have "timedelta_seconds (ttl c1) = Inr d" by simp
  from Cons.IH [OF i this] c1 show ?case by simp
qed

lemma init_inv: "1 \<le> ms \<Longrightarrow> cache_inv (init ms t)"
  by (simp add: cache_inv_def init_def size_ok_def is_dict_def)

lemma step_keeps_or_sets:
  assumes "step md5 c x = Inr c1" "map_of (cache c1) k = Some v"
  shows "(case x of Set p m r now \<Rightarrow> if hash_key md5 p m = k then v = (r, now) else map_of (cache c) k = Some v
          | _ \<Rightarrow> map_of (cache c) k = Some v)"
proof (cases x)
  case (Get p m now)
  with assms show ?thesis
    by (auto simp: get_def Let_def delete_conv' split: option.splits if_splits sum.splits prod.splits)
next
  case (Set p m r now)
  with assms show ?thesis
    by (auto simp: set_cache_def Let_def update_conv' delete_conv' split: if_splits sum.splits)
next
  case Clear
  with assms show ?thesis by (auto simp: clear_def)
qed

lemma run_last_set:
  assumes "run md5 c0 xs = Inr c" "map_of (cache c) k = Some v"
  shows "last_set md5 xs k = Some v \<or> (last_set md5 xs k = None \<and> map_of (cache c0) k = Some v)"
  using assms
proof (induction xs arbitrary: c0)
  case Nil then show ?case by simp
next
  case (Cons x xs)
  from Cons.prems(1) obtain c1 where c1: "step md5 c0 x = Inr c1" "run md5 c1 xs = Inr c"
    by (auto split: sum.splits)
  from Cons.IH [OF c1(2) Cons.prems(2)]
  have ih: "last_set md5 xs k = Some v \<or> (last_set md5 xs k = None \<and> map_of (cache c1) k = Some v)" .
  show ?case
  proof (cases "last_set md5 xs k")
    case (Some w)
    with ih show ?thesis by (cases x) auto
  next
    case None
    with ih have m: "map_of (cache c1) k = Some v" by simp
    from step_keeps_or_sets [OF c1(1) m] None show ?thesis
      by (cases x) (auto split: if_splits)
  qed
qed

lemma run_append:
  "run md5 c (xs @ ys) = (case run md5 c xs of Inl e \<Rightarrow> Inl e | Inr c' \<Rightarrow> run md5 c' ys)"
  by (induction xs arbitrary: c) (auto split: sum.splits)

lemma last_set_append_get:
  "last_set md5 (xs @ [Get p m now]) k = last_set md5 xs k"
proof (induction xs)
  case Nil show ?case by simp
next
  case (Cons x xs) then show ?case by (cases x) simp_all
qed


text \<open>
  Claim C4. With \<open>max_size \<ge> 1\<close>, the bound \<open>len(cache) \<le> max_size\<close> is kept by
  \<^verbatim>\<open>get\<close>, \<^verbatim>\<open>clear\<close> and \<^verbatim>\<open>set\<close>, and \<^verbatim>\<open>set\<close> does not raise. On a cache that
  already holds \<open>max_size\<close> entries, \<^verbatim>\<open>set\<close> first removes exactly one entry, one whose
  stored timestamp is the least, and then inserts the new entry.
\<close>

theorem size_bound_preserved:
  assumes "1 \<le> max_size c" "size_ok c" "is_dict (cache c)"
  shows "size_ok (snd (get md5 c p m now))
       \<and> size_ok (clear c)
       \<and> (\<exists>c'. set_cache md5 c p m r now = Inr c' \<and> size_ok c' \<and> is_dict (cache c')
                \<and> max_size c' = max_size c)
       \<and> (int (length (cache c)) = max_size c \<longrightarrow>
            (\<exists>e \<in> set (cache c).
               (\<forall>x \<in> set (cache c). snd (snd e) \<le> snd (snd x))
             \<and> oldest_key (cache c) = Inr (fst e)
             \<and> Suc (length (AList.delete (fst e) (cache c))) = length (cache c)
             \<and> set (AList.delete (fst e) (cache c)) = set (cache c) - {e}
             \<and> set_cache md5 c p m r now =
                 Inr (c\<lparr>cache := AList.update (hash_key md5 p m) (r, now)
                                    (AList.delete (fst e) (cache c))\<rparr>)))"
proof (intro conjI impI)
  have "int (length (cache (snd (get md5 c p m now)))) \<le> int (length (cache c))"
    using get_preserves(3) [of md5 c p m now] by linarith
  with assms(2) show "size_ok (snd (get md5 c p m now))"
    by (simp add: size_ok_def get_preserves(1))
next
  from assms(1) show "size_ok (clear c)" by (simp add: size_ok_def clear_def)
next
  from set_cache_ok [OF assms, of md5 p m r now]
  show "\<exists>c'. set_cache md5 c p m r now = Inr c' \<and> size_ok c' \<and> is_dict (cache c')
                \<and> max_size c' = max_size c"
    by (elim exE conjE) (intro exI conjI)
next
  assume full: "int (length (cache c)) = max_size c"
  with assms(1) have ne: "cache c \<noteq> []" by auto
  from full have le: "max_size c \<le> int (length (cache c))" by simp
  show "\<exists>e \<in> set (cache c).
               (\<forall>x \<in> set (cache c). snd (snd e) \<le> snd (snd x))
             \<and> oldest_key (cache c) = Inr (fst e)
             \<and> Suc (length (AList.delete (fst e) (cache c))) = length (cache c)
             \<and> set (AList.delete (fst e) (cache c)) = set (cache c) - {e}
             \<and> set_cache md5 c p m r now =
                 Inr (c\<lparr>cache := AList.update (hash_key md5 p m) (r, now)
                                    (AList.delete (fst e) (cache c))\<rparr>)"
    by (rule set_cache_full [OF assms(3) ne le])
qed

theorem size_bound_preserved_witness:
  "set_cache id \<lparr>max_size = 2, ttl = 10, cache = [(''m:a'', (''ra'', 7)), (''m:b'', (''rb'', 3))]\<rparr>
      ''c'' ''m'' ''rc'' 9
     = Inr \<lparr>max_size = 2, ttl = 10, cache = [(''m:a'', (''ra'', 7)), (''m:c'', (''rc'', 9))]\<rparr>
   \<and> size_ok \<lparr>max_size = 2, ttl = 10, cache = [(''m:a'', (''ra'', 7)), (''m:c'', (''rc'', 9))]\<rparr>"
  using size_bound_preserved
    [of "\<lparr>max_size = 2, ttl = 10, cache = [(''m:a'', (''ra'', 7)), (''m:b'', (''rb'', 3))]\<rparr>"
        id "''c''" "''m''" 9 "''rc''"]
  by (simp add: size_ok_def is_dict_def set_cache_def oldest_key_def hash_key_def AList.delete_eq)

text \<open>
  Claim C8. A \<^verbatim>\<open>get\<close> that hits returns the stored response and leaves the cache
  unchanged. So after any sequence of calls on a new cache, reads included, every entry
  still carries the response and the time of the last \<^verbatim>\<open>set\<close> on its key, a later
  \<^verbatim>\<open>set\<close> behaves as if the read had not happened, and the key that a later
  \<^verbatim>\<open>set\<close> on a full cache removes is one whose stored time is the least.
\<close>

theorem get_hit_leaves_cache:
  assumes "run md5 (init ms t) ops = Inr c"
    and "get md5 c prompt model now = (Inr (Some r), c')"
  shows "c' = c
       \<and> (\<exists>ts. map_of (cache c) (hash_key md5 prompt model) = Some (r, ts))
       \<and> run md5 (init ms t) (ops @ [Get prompt model now]) = Inr c
       \<and> (\<forall>k v. map_of (cache c') k = Some v \<longrightarrow>
              last_set md5 (ops @ [Get prompt model now]) k = Some v)
       \<and> set_cache md5 c' p2 m2 r2 now2 = set_cache md5 c p2 m2 r2 now2
       \<and> (\<exists>e \<in> set (cache c'). oldest_key (cache c') = Inr (fst e)
              \<and> (\<forall>x \<in> set (cache c'). snd (snd e) \<le> snd (snd x)))"
proof -
  have same: "c' = c" using get_hit_unchanged(1) [OF assms(2)] .
  from get_hit_unchanged(2) [OF assms(2)]
  have stored: "\<exists>ts. map_of (cache c) (hash_key md5 prompt model) = Some (r, ts)" by blast
  then have ne: "cache c \<noteq> []" by auto
  have r1: "run md5 (init ms t) (ops @ [Get prompt model now]) = Inr c"
    using assms same by (simp add: run_append)
  have hist: "\<forall>k v. map_of (cache c) k = Some v \<longrightarrow> last_set md5 ops k = Some v"
  proof (intro allI impI)
    fix k v assume "map_of (cache c) k = Some v"
    from run_last_set [OF assms(1) this] show "last_set md5 ops k = Some v"
      by (simp add: init_def)
  qed
  from same stored r1 hist oldest_key_least [OF ne] show ?thesis
    by (simp add: last_set_append_get)
qed

theorem get_hit_leaves_cache_witness:
  "run id (init 2 100) [Set ''a'' ''m'' ''ra'' 1, Set ''b'' ''m'' ''rb'' 2]
     = Inr \<lparr>max_size = 2, ttl = 100, cache = [(''m:a'', (''ra'', 1)), (''m:b'', (''rb'', 2))]\<rparr>
   \<and> get id \<lparr>max_size = 2, ttl = 100, cache = [(''m:a'', (''ra'', 1)), (''m:b'', (''rb'', 2))]\<rparr>
        ''a'' ''m'' 50
     = (Inr (Some ''ra''), \<lparr>max_size = 2, ttl = 100, cache = [(''m:a'', (''ra'', 1)), (''m:b'', (''rb'', 2))]\<rparr>)
   \<and> set_cache id \<lparr>max_size = 2, ttl = 100, cache = [(''m:a'', (''ra'', 1)), (''m:b'', (''rb'', 2))]\<rparr>
        ''c'' ''m'' ''rc'' 60
     = Inr \<lparr>max_size = 2, ttl = 100, cache = [(''m:b'', (''rb'', 2)), (''m:c'', (''rc'', 60))]\<rparr>"
proof -
  let ?c = "\<lparr>max_size = 2, ttl = 100, cache = [(''m:a'', (''ra'', 1)), (''m:b'', (''rb'', 2))]\<rparr>"
  have r: "run id (init 2 100) [Set ''a'' ''m'' ''ra'' 1, Set ''b'' ''m'' ''rb'' 2] = Inr ?c"
    by (simp add: init_def set_cache_def hash_key_def)
  have g: "get id ?c ''a'' ''m'' 50 = (Inr (Some ''ra''), ?c)"
    by (simp add: get_def hash_key_def timedelta_seconds_def)
  from get_hit_leaves_cache [OF r g, of "''c''" "''m''" "''rc''" 60] r g show ?thesis
    by (simp add: set_cache_def oldest_key_def hash_key_def AList.delete_eq)
qed

section \<open>Properties of the validation report\<close>

lemma counters_ok_new: "counters_ok (new_report d)"
  by (simp add: counters_ok_def new_report_def count_status_def)

lemma counters_ok_add: "counters_ok r \<Longrightarrow> counters_ok (add_result r x)"
  by (simp add: counters_ok_def add_result_def count_status_def Let_def)

lemma results_add: "results (add_result r x) = results r @ [x]"
  by (simp add: add_result_def Let_def)

lemma counters_ok_foldl: "counters_ok r \<Longrightarrow> counters_ok (foldl add_result r xs)"
  by (induction xs arbitrary: r) (simp_all add: counters_ok_add)

lemma results_foldl: "results (foldl add_result r xs) = results r @ xs"
  by (induction xs arbitrary: r) (simp_all add: results_add)

lemma status_partition:
  "length (filter (\<lambda>x. status x = PASSED) rs) + length (filter (\<lambda>x. status x = FAILED) rs)
   + length (filter (\<lambda>x. status x = WARNING) rs)
   + length (filter (\<lambda>x. status x \<noteq> PASSED \<and> status x \<noteq> FAILED \<and> status x \<noteq> WARNING) rs)
   = length rs"
  by (induction rs) auto

lemma counters_ok_sum:
  assumes "counters_ok r"
  shows "passed r + failed r + warnings r + skipped r = int (length (results r))"
  using assms status_partition [of "results r"]
  by (simp add: counters_ok_def count_status_def)

lemma not_skipped_iff:
  "(s \<noteq> PASSED \<and> s \<noteq> FAILED \<and> s \<noteq> WARNING) = (s = SKIPPED)"
  by (cases s) simp_all

text \<open>
  Claim C9. For a report built from a fresh one by any sequence of \<^verbatim>\<open>add_result\<close>
  calls, the four counters add up to the number of stored results, the stored results are
  the ones added, in order, and each counter is the number of results with its status;
  \<open>skipped\<close> counts every status other than PASSED, FAILED and WARNING, which for the
  enumeration is SKIPPED.
\<close>

theorem add_result_counters:
  "passed (foldl add_result (new_report d) rs) + failed (foldl add_result (new_report d) rs)
     + warnings (foldl add_result (new_report d) rs) + skipped (foldl add_result (new_report d) rs)
     = int (length (results (foldl add_result (new_report d) rs)))
   \<and> results (foldl add_result (new_report d) rs) = rs
   \<and> passed (foldl add_result (new_report d) rs) = count_status PASSED rs
   \<and> failed (foldl add_result (new_report d) rs) = count_status FAILED rs
   \<and> warnings (foldl add_result (new_report d) rs) = count_status WARNING rs
   \<and> skipped (foldl add_result (new_report d) rs)
       = int (length (filter (\<lambda>x. status x \<noteq> PASSED \<and> status x \<noteq> FAILED \<and> status x \<noteq> WARNING) rs))
   \<and> skipped (foldl add_result (new_report d) rs) = count_status SKIPPED rs"
proof -
  let ?r = "foldl add_result (new_report d) rs"
  have ok: "counters_ok ?r" by (simp add: counters_ok_foldl counters_ok_new)
  have res: "results ?r = rs" by (simp add: results_foldl new_report_def)
  have sk: "(\<lambda>x. status x \<noteq> PASSED \<and> status x \<noteq> FAILED \<and> status x \<noteq> WARNING) = (\<lambda>x. status x = SKIPPED)"
    using not_skipped_iff by auto
  from counters_ok_sum [OF ok] ok res show ?thesis
    by (simp add: counters_ok_def sk count_status_def)
qed

lemma nonneg_foldl:
  "0 \<le> passed (foldl add_result (new_report d) rs) \<and> 0 \<le> failed (foldl add_result (new_report d) rs)
   \<and> 0 \<le> warnings (foldl add_result (new_report d) rs)"
  using counters_ok_foldl [OF counters_ok_new, of d rs]
  by (simp add: counters_ok_def count_status_def)



section \<open>Properties of the retry decorator\<close>

declare wrapper_loop.simps [simp del]

lemma loop_done:
  "\<not> int a < mr \<Longrightarrow>
   wrapper_loop ts mr bd func a le tr =
     (case le of None \<Rightarrow> (RaiseNone_TypeError, tr) | Some e \<Rightarrow> (Raised (Exc e), tr))"
  by (subst wrapper_loop.simps) simp

lemma loop_returns:
  "int a < mr \<Longrightarrow> func a = Returns v \<Longrightarrow>
   wrapper_loop ts mr bd func a le tr = (Returned v, tr @ [Invoke])"
  by (subst wrapper_loop.simps) simp

lemma loop_base:
  "int a < mr \<Longrightarrow> func a = Raises (BaseExc b) \<Longrightarrow>
   wrapper_loop ts mr bd func a le tr = (Raised (BaseExc b), tr @ [Invoke])"
  by (subst wrapper_loop.simps) simp

lemma loop_last:
  "int a < mr \<Longrightarrow> \<not> int a < mr - 1 \<Longrightarrow> func a = Raises (Exc e) \<Longrightarrow>
   wrapper_loop ts mr bd func a le tr = wrapper_loop ts mr bd func (Suc a) (Some e) (tr @ [Invoke])"
  by (subst wrapper_loop.simps) simp

lemma loop_overflow:
  "int a < mr - 1 \<Longrightarrow> func a = Raises (Exc e) \<Longrightarrow> 1024 \<le> a \<Longrightarrow>
   wrapper_loop ts mr bd func a le tr = (Handler_raised OverflowError, tr @ [Invoke])"
  by (subst wrapper_loop.simps) simp

lemma loop_sleep_raises:
  "int a < mr - 1 \<Longrightarrow> func a = Raises (Exc e) \<Longrightarrow> a < 1024 \<Longrightarrow>
   ts (float_product bd a) = Some err \<Longrightarrow>
   wrapper_loop ts mr bd func a le tr = (Handler_raised err, tr @ [Invoke])"
  by (subst wrapper_loop.simps) (simp add: Let_def)

lemma loop_step_exc:
  "int a < mr - 1 \<Longrightarrow> func a = Raises (Exc e) \<Longrightarrow> a < 1024 \<Longrightarrow>
   ts (float_product bd a) = None \<Longrightarrow>
   wrapper_loop ts mr bd func a le tr =
     wrapper_loop ts mr bd func (Suc a) (Some e) (tr @ [Invoke, Sleep (float_product bd a)])"
  by (subst wrapper_loop.simps) (simp add: Let_def)

lemma loop_cases [consumes 1, case_names stop last slept]:
  assumes "int a < mr"
  obtains
    (stop) r where "wrapper_loop ts mr bd func a le tr = (r, tr @ [Invoke])" "r \<noteq> RaiseNone_TypeError"
  | (last) e where "wrapper_loop ts mr bd func a le tr =
                      wrapper_loop ts mr bd func (Suc a) (Some e) (tr @ [Invoke])"
  | (slept) e where "wrapper_loop ts mr bd func a le tr =
                      wrapper_loop ts mr bd func (Suc a) (Some e)
                        (tr @ [Invoke, Sleep (float_product bd a)])"
proof (cases "func a")
  case (Returns v)
  have "wrapper_loop ts mr bd func a le tr = (Returned v, tr @ [Invoke])"
    using assms Returns by (rule loop_returns)
  then show ?thesis by (rule stop) simp
next
  case (Raises x)
  show ?thesis
  proof (cases x)
    case (BaseExc b)
    with Raises have f: "func a = Raises (BaseExc b)" by simp
    have "wrapper_loop ts mr bd func a le tr = (Raised (BaseExc b), tr @ [Invoke])"
      using assms f by (rule loop_base)
    then show ?thesis by (rule stop) simp
  next
    case (Exc e)
    with Raises have f: "func a = Raises (Exc e)" by simp
    show ?thesis
    proof (cases "int a < mr - 1")
      case False
      have "wrapper_loop ts mr bd func a le tr =
              wrapper_loop ts mr bd func (Suc a) (Some e) (tr @ [Invoke])"
        using assms False f by (rule loop_last)
      then show ?thesis by (rule last)
    next
      case lt: True
      show ?thesis
      proof (cases "1024 \<le> a")
        case True
        have "wrapper_loop ts mr bd func a le tr = (Handler_raised OverflowError, tr @ [Invoke])"
          using lt f True by (rule loop_overflow)
        then show ?thesis by (rule stop) simp
      next
        case False
        then have small: "a < 1024" by simp
        show ?thesis
        proof (cases "ts (float_product bd a)")
          case (Some err)
          have "wrapper_loop ts mr bd func a le tr = (Handler_raised err, tr @ [Invoke])"
            using lt f small Some by (rule loop_sleep_raises)
          then show ?thesis by (rule stop) simp
        next
          case None
          have "wrapper_loop ts mr bd func a le tr =
                  wrapper_loop ts mr bd func (Suc a) (Some e)
                    (tr @ [Invoke, Sleep (float_product bd a)])"
            using lt f small None by (rule loop_step_exc)
          then show ?thesis by (rule slept)
        qed
      qed
    qed
  qed
qed

lemma loop_not_none:
  "le \<noteq> None \<Longrightarrow> fst (wrapper_loop ts mr bd func a le tr) \<noteq> RaiseNone_TypeError"
proof (induction "nat (mr - int a)" arbitrary: a le tr)
  case 0
  then have "\<not> int a < mr" by simp
  with "0.prems" show ?case by (auto simp: loop_done)
next
  case (Suc n)
  then have lt: "int a < mr" and n: "n = nat (mr - int (Suc a))" by linarith+
  from lt show ?case
  proof (cases rule: loop_cases [where ts = ts and bd = bd and func = func and le = le and tr = tr])
    case (stop r)
    then show ?thesis by simp
  next
    case (last e)
    with Suc.hyps(1) [OF n, of "Some e" "tr @ [Invoke]"] show ?thesis by simp
  next
    case (slept e)
    with Suc.hyps(1) [OF n, of "Some e" "tr @ [Invoke, Sleep (float_product bd a)]"]
    show ?thesis by simp
  qed
qed

lemma loop_invocations:
  "invocations (snd (wrapper_loop ts mr bd func a le tr)) \<le> invocations tr + nat (mr - int a)"
proof (induction "nat (mr - int a)" arbitrary: a le tr)
  case 0
  then have "\<not> int a < mr" by simp
  then show ?case by (simp add: loop_done split: option.splits)
next
  case (Suc n)
  then have lt: "int a < mr" and n: "n = nat (mr - int (Suc a))" by linarith+
  from Suc.hyps(2) have m: "nat (mr - int a) = Suc n" by simp
  from lt show ?case
  proof (cases rule: loop_cases [where ts = ts and bd = bd and func = func and le = le and tr = tr])
    case (stop r)
    then show ?thesis by (simp add: invocations_def m)
  next
    case (last e)
    with Suc.hyps(1) [OF n, of "Some e" "tr @ [Invoke]"] show ?thesis
      by (simp add: invocations_def m n)
  next
    case (slept e)
    with Suc.hyps(1) [OF n, of "Some e" "tr @ [Invoke, Sleep (float_product bd a)]"]
    show ?thesis by (simp add: invocations_def m n)
  qed
qed

lemma backoff_empty: "backoff bd k k = []"
  by (simp add: backoff_def)

lemma backoff_step:
  "a < k \<Longrightarrow> backoff bd a k = [Invoke, Sleep (float_product bd a)] @ backoff bd (Suc a) k"
  by (simp add: backoff_def upt_conv_Cons)

lemma invocations_backoff: "invocations (backoff bd a k @ [Invoke]) = Suc (k - a)"
proof (induction "k - a" arbitrary: a)
  case 0
  then show ?case by (simp add: backoff_def invocations_def)
next
  case (Suc n)
  then have lt: "a < k" and n: "n = k - Suc a" by linarith+
  from Suc.hyps(1) [OF n] lt show ?case
    by (simp add: backoff_step invocations_def)
qed

lemma float_product_exact:
  "\<bar>base_delay\<bar> * 2 ^ i \<le> max_double \<Longrightarrow> float_product base_delay i = Finite (base_delay * 2 ^ i)"
proof -
  assume a: "\<bar>base_delay\<bar> * 2 ^ i \<le> max_double"
  have "\<bar>base_delay * 2 ^ i\<bar> = \<bar>base_delay\<bar> * 2 ^ i" by (simp add: abs_mult)
  with a have "\<bar>base_delay * 2 ^ i\<bar> \<le> max_double" by simp
  then have "\<not> max_double < base_delay * 2 ^ i" "\<not> base_delay * 2 ^ i < - max_double" by linarith+
  then show ?thesis by (simp add: float_product_def Let_def)
qed

lemma loop_stops:
  assumes ok: "\<forall>i. int i < mr - 1 \<longrightarrow> i < 1024 \<and> ts (float_product bd i) = None"
    and "a \<le> k" "int k < mr"
    and "\<forall>i. a \<le> i \<and> i < k \<longrightarrow> (\<exists>e. func i = Raises (Exc e))"
    and "func k = Returns v \<or> func k = Raises (BaseExc b)"
  shows "wrapper_loop ts mr bd func a le tr =
           ((case func k of Returns v \<Rightarrow> Returned v | Raises x \<Rightarrow> Raised x),
            tr @ backoff bd a k @ [Invoke])"
  using assms(2,4)
proof (induction "k - a" arbitrary: a le tr)
  case 0
  then have "a = k" by simp
  with assms(3,5) show ?case
    by (subst wrapper_loop.simps) (auto simp: backoff_empty)
next
  case (Suc n)
  then have lt: "a < k" and n: "n = k - Suc a" by linarith+
  from Suc.prems(2) lt obtain e where e: "func a = Raises (Exc e)" by blast
  have lt': "int a < mr - 1" using lt assms(3) by linarith
  from ok lt' have small: "a < 1024" and sl: "ts (float_product bd a) = None" by blast+
  have rest: "\<forall>i. Suc a \<le> i \<and> i < k \<longrightarrow> (\<exists>e. func i = Raises (Exc e))"
    using Suc.prems(2) by auto
  from lt have le': "Suc a \<le> k" by simp
  have st: "wrapper_loop ts mr bd func a le tr =
         wrapper_loop ts mr bd func (Suc a) (Some e) (tr @ [Invoke, Sleep (float_product bd a)])"
    using lt' e small sl by (rule loop_step_exc)
  show ?case
    by (simp only: st Suc.hyps(1) [OF n le' rest]
          backoff_step [OF lt] append_assoc append.simps)
qed

lemma loop_exhausts:
  assumes ok: "\<forall>i. int i < mr - 1 \<longrightarrow> i < 1024 \<and> ts (float_product bd i) = None"
    and "int a < mr"
    and "\<forall>i. a \<le> i \<and> int i < mr \<longrightarrow> (\<exists>e. func i = Raises (Exc e))"
  shows "\<exists>e. func (nat mr - 1) = Raises (Exc e) \<and>
           wrapper_loop ts mr bd func a le tr =
             (Raised (Exc e), tr @ backoff bd a (nat mr - 1) @ [Invoke])"
  using assms(2,3)
proof (induction "nat mr - 1 - a" arbitrary: a le tr)
  case 0
  then have a: "a = nat mr - 1" by linarith
  from "0.prems" obtain e where e: "func a = Raises (Exc e)" by blast
  have n1: "\<not> int a < mr - 1" using a by linarith
  have n2: "\<not> int (Suc a) < mr" using a by linarith
  have "wrapper_loop ts mr bd func a le tr = wrapper_loop ts mr bd func (Suc a) (Some e) (tr @ [Invoke])"
    using "0.prems"(1) n1 e by (rule loop_last)
  also have "\<dots> = (Raised (Exc e), tr @ [Invoke])"
    using n2 by (simp add: loop_done)
  finally show ?case using e a by (simp add: backoff_empty)
next
  case (Suc n)
  then have lt: "a < nat mr - 1" and n: "n = nat mr - 1 - Suc a" by linarith+
  from Suc.prems obtain e where e: "func a = Raises (Exc e)" by blast
  have lt': "int a < mr - 1" using lt by linarith
  have lt'': "int (Suc a) < mr" using lt by linarith
  from ok lt' have small: "a < 1024" and sl: "ts (float_product bd a) = None" by blast+
  have rest: "\<forall>i. Suc a \<le> i \<and> int i < mr \<longrightarrow> (\<exists>e. func i = Raises (Exc e))"
    using Suc.prems(2) by auto
  from Suc.hyps(1) [OF n lt'' rest, of "Some e" "tr @ [Invoke, Sleep (float_product bd a)]"]
  obtain e' where e': "func (nat mr - 1) = Raises (Exc e')"
    "wrapper_loop ts mr bd func (Suc a) (Some e) (tr @ [Invoke, Sleep (float_product bd a)]) =
       (Raised (Exc e'), (tr @ [Invoke, Sleep (float_product bd a)]) @ backoff bd (Suc a) (nat mr - 1) @ [Invoke])"
    by blast
  have st: "wrapper_loop ts mr bd func a le tr =
         wrapper_loop ts mr bd func (Suc a) (Some e) (tr @ [Invoke, Sleep (float_product bd a)])"
    using lt' e small sl by (rule loop_step_exc)
  show ?case
    using e' by (simp only: st backoff_step [OF lt]) simp
qed

text \<open>
  Claim C3, with delays that can be computed and slept. For \<open>max_retries \<ge> 1\<close>, and
  when for every attempt \<open>i < max_retries - 1\<close> the power \<open>2 ^ i\<close> converts to a float
  (\<open>i < 1024\<close>) and \<^verbatim>\<open>time.sleep\<close> accepts the delay: the function is invoked at most
  \<open>max_retries\<close> times; if invocation \<open>k < max_retries\<close> is the first that does not
  raise an \<^verbatim>\<open>Exception\<close>, the wrapper returns its value (or lets its exception through)
  after exactly \<open>k + 1\<close> invocations, having slept the delay of each failed attempt
  \<open>i < k\<close> after it; and if all \<open>max_retries\<close> invocations raise, it raises the
  exception of the last one, after \<open>max_retries\<close> invocations and the sleep of each
  attempt but the last. The delay of attempt \<open>i\<close> is \<open>base_delay * 2 ^ i\<close> while that
  is a finite float.
\<close>

theorem retry_with_backoff_behaviour:
  assumes "1 \<le> max_retries"
    and "\<forall>i. int i < max_retries - 1 \<longrightarrow>
            i < 1024 \<and> time_sleep (float_product base_delay i) = None"
  shows "invocations (snd (wrapper time_sleep max_retries base_delay func)) \<le> nat max_retries
       \<and> (\<forall>k v. int k < max_retries \<and> (\<forall>i<k. \<exists>e. func i = Raises (Exc e)) \<and> func k = Returns v
             \<longrightarrow> wrapper time_sleep max_retries base_delay func
                   = (Returned v, backoff base_delay 0 k @ [Invoke])
               \<and> invocations (backoff base_delay 0 k @ [Invoke]) = Suc k)
       \<and> (\<forall>k b. int k < max_retries \<and> (\<forall>i<k. \<exists>e. func i = Raises (Exc e)) \<and> func k = Raises (BaseExc b)
             \<longrightarrow> wrapper time_sleep max_retries base_delay func
                   = (Raised (BaseExc b), backoff base_delay 0 k @ [Invoke]))
       \<and> ((\<forall>i. int i < max_retries \<longrightarrow> (\<exists>e. func i = Raises (Exc e)))
             \<longrightarrow> (\<exists>e. func (nat max_retries - 1) = Raises (Exc e)
                    \<and> wrapper time_sleep max_retries base_delay func =
                        (Raised (Exc e), backoff base_delay 0 (nat max_retries - 1) @ [Invoke])
                    \<and> invocations (backoff base_delay 0 (nat max_retries - 1) @ [Invoke]) = nat max_retries))
       \<and> (\<forall>i. \<bar>base_delay\<bar> * 2 ^ i \<le> max_double \<longrightarrow>
              float_product base_delay i = Finite (base_delay * 2 ^ i))"
proof (intro conjI allI impI)
  show "invocations (snd (wrapper time_sleep max_retries base_delay func)) \<le> nat max_retries"
    using loop_invocations [of time_sleep max_retries base_delay func 0 None "[]"]
    by (simp add: wrapper_def invocations_def)
next
  fix k v
  assume h: "int k < max_retries \<and> (\<forall>i<k. \<exists>e. func i = Raises (Exc e)) \<and> func k = Returns v"
  have fails: "\<forall>i. 0 \<le> i \<and> i < k \<longrightarrow> (\<exists>e. func i = Raises (Exc e))" using h by simp
  have "wrapper_loop time_sleep max_retries base_delay func 0 None [] =
           ((case func k of Returns v \<Rightarrow> Returned v | Raises x \<Rightarrow> Raised x),
            [] @ backoff base_delay 0 k @ [Invoke])"
  proof (rule loop_stops [where v = v and b = undefined])
    show "\<forall>i. int i < max_retries - 1 \<longrightarrow>
            i < 1024 \<and> time_sleep (float_product base_delay i) = None" by (rule assms(2))
    show "0 \<le> k" by simp
    show "int k < max_retries" using h by simp
    show "\<forall>i. 0 \<le> i \<and> i < k \<longrightarrow> (\<exists>e. func i = Raises (Exc e))" by (rule fails)
    show "func k = Returns v \<or> func k = Raises (BaseExc undefined)" using h by simp
  qed
  with h show "wrapper time_sleep max_retries base_delay func = (Returned v, backoff base_delay 0 k @ [Invoke])"
    by (simp add: wrapper_def)
  show "invocations (backoff base_delay 0 k @ [Invoke]) = Suc k"
    by (simp add: invocations_backoff)
next
  fix k b
  assume h: "int k < max_retries \<and> (\<forall>i<k. \<exists>e. func i = Raises (Exc e)) \<and> func k = Raises (BaseExc b)"
  have fails: "\<forall>i. 0 \<le> i \<and> i < k \<longrightarrow> (\<exists>e. func i = Raises (Exc e))" using h by simp
  have "wrapper_loop time_sleep max_retries base_delay func 0 None [] =
           ((case func k of Returns v \<Rightarrow> Returned v | Raises x \<Rightarrow> Raised x),
            [] @ backoff base_delay 0 k @ [Invoke])"
  proof (rule loop_stops [where v = undefined and b = b])
    show "\<forall>i. int i < max_retries - 1 \<longrightarrow>
            i < 1024 \<and> time_sleep (float_product base_delay i) = None" by (rule assms(2))
    show "0 \<le> k" by simp
    show "int k < max_retries" using h by simp
    show "\<forall>i. 0 \<le> i \<and> i < k \<longrightarrow> (\<exists>e. func i = Raises (Exc e))" by (rule fails)
    show "func k = Returns undefined \<or> func k = Raises (BaseExc b)" using h by simp
  qed
  with h show "wrapper time_sleep max_retries base_delay func = (Raised (BaseExc b), backoff base_delay 0 k @ [Invoke])"
    by (simp add: wrapper_def)
next
  assume h: "\<forall>i. int i < max_retries \<longrightarrow> (\<exists>e. func i = Raises (Exc e))"
  then have h': "\<forall>i. 0 \<le> i \<and> int i < max_retries \<longrightarrow> (\<exists>e. func i = Raises (Exc e))" by simp
  have lt: "int 0 < max_retries" using assms(1) by simp
  from loop_exhausts [OF assms(2) lt h', of None "[]"] assms(1)
  show "\<exists>e. func (nat max_retries - 1) = Raises (Exc e)
                    \<and> wrapper time_sleep max_retries base_delay func =
                        (Raised (Exc e), backoff base_delay 0 (nat max_retries - 1) @ [Invoke])
                    \<and> invocations (backoff base_delay 0 (nat max_retries - 1) @ [Invoke]) = nat max_retries"
    by (auto simp: wrapper_def invocations_backoff)
next
  fix i assume "\<bar>base_delay\<bar> * 2 ^ i \<le> max_double"
  then show "float_product base_delay i = Finite (base_delay * 2 ^ i)"
    by (rule float_product_exact)
qed

lemma max_double_ge: "4 \<le> max_double"
proof -
  have "(4::real) = 1 * 2 ^ 2" by simp
  also have "\<dots> \<le> (2 ^ 53 - 1) * 2 ^ 971"
    by (intro mult_mono) simp_all
  finally show ?thesis by (simp only: max_double_def)
qed

lemma sample_delays:
  "float_product 2 0 = Finite 2" "float_product 2 1 = Finite 4" "float_product 2 (Suc 0) = Finite 4"
proof -
  have a: "\<bar>2::real\<bar> * 2 ^ 0 \<le> max_double" using max_double_ge by simp
  have b: "\<bar>2::real\<bar> * 2 ^ 1 \<le> max_double" using max_double_ge by simp
  from float_product_exact [OF a] show "float_product 2 0 = Finite 2" by simp
  from float_product_exact [OF b] show c: "float_product 2 1 = Finite 4" by simp
  then show "float_product 2 (Suc 0) = Finite 4" by simp
qed

theorem retry_with_backoff_behaviour_witness:
  "wrapper cpython_sleep 3 2 fails_then_returns = (Returned ''ok'', [Invoke, Sleep (Finite 2), Invoke])
   \<and> wrapper cpython_sleep 3 2 always_fails
       = (Raised (Exc ''e2''), [Invoke, Sleep (Finite 2), Invoke, Sleep (Finite 4), Invoke])
   \<and> invocations (snd (wrapper cpython_sleep 3 2 always_fails)) \<le> 3"
proof -
  have b1: "backoff 2 0 1 = [Invoke, Sleep (Finite 2)]"
    by (simp add: backoff_def sample_delays)
  have b2: "backoff 2 0 2 = [Invoke, Sleep (Finite 2), Invoke, Sleep (Finite 4)]"
    by (simp add: backoff_def upt_rec sample_delays)
  have h1: "(1::int) \<le> 3" by simp
  have h2: "\<forall>i. int i < 3 - 1 \<longrightarrow> i < 1024 \<and> cpython_sleep (float_product 2 i) = None"
  proof (intro allI impI)
    fix i :: nat assume "int i < 3 - 1"
    then consider "i = 0" | "i = 1" by linarith
    then show "i < 1024 \<and> cpython_sleep (float_product 2 i) = None"
      by cases (simp_all add: sample_delays cpython_sleep_def)
  qed
  have f: "int 1 < 3 \<and> (\<forall>i<1. \<exists>e. fails_then_returns i = Raises (Exc e))
           \<and> fails_then_returns 1 = Returns ''ok''"
    by (simp add: fails_then_returns_def)
  have a: "\<forall>i. int i < 3 \<longrightarrow> (\<exists>e. always_fails i = Raises (Exc e))"
    by (simp add: always_fails_def)
  have a2: "always_fails (nat 3 - 1) = Raises (Exc ''e2'')"
    by (simp add: always_fails_def)
  note T = retry_with_backoff_behaviour [OF h1 h2]
  have "wrapper cpython_sleep 3 2 fails_then_returns = (Returned ''ok'', backoff 2 0 1 @ [Invoke])"
    using T [of fails_then_returns, THEN conjunct2, THEN conjunct1, rule_format, of 1 "''ok''"] f
    by simp
  moreover have "\<exists>e. always_fails (nat 3 - 1) = Raises (Exc e)
           \<and> wrapper cpython_sleep 3 2 always_fails
               = (Raised (Exc e), backoff 2 0 (nat 3 - 1) @ [Invoke])
           \<and> invocations (backoff 2 0 (nat 3 - 1) @ [Invoke]) = nat 3"
    using T [of always_fails, THEN conjunct2, THEN conjunct2, THEN conjunct2, THEN conjunct1] a
    by (rule mp)
  then have "wrapper cpython_sleep 3 2 always_fails
               = (Raised (Exc ''e2''), backoff 2 0 (nat 3 - 1) @ [Invoke])"
    using a2 by auto
  moreover have "invocations (snd (wrapper cpython_sleep 3 2 always_fails)) \<le> 3"
    using T [of always_fails, THEN conjunct1] by simp
  ultimately show ?thesis using b1 by (simp add: b2)
qed

text \<open>
  Claim C3 as stated, for every \<open>base_delay\<close>, fails. With \<open>max_retries = 2\<close>, a
  function that fails once and then would return \<open>ok\<close> is invoked once only, and the
  wrapper raises what \<^verbatim>\<open>time.sleep\<close> raises: \<^verbatim>\<open>ValueError\<close> for \<open>base_delay = -1\<close>, and
  \<^verbatim>\<open>OverflowError\<close> for \<open>base_delay = 10\<^sup>1\<^sup>0\<close>.
\<close>

theorem retry_refused_delay_counterexample:
  "wrapper cpython_sleep 2 (- 1) fails_then_returns = (Handler_raised ValueError, [Invoke])
   \<and> wrapper cpython_sleep 2 10000000000 fails_then_returns = (Handler_raised OverflowError, [Invoke])
   \<and> fails_then_returns 0 = Raises (Exc ''boom'')
   \<and> fails_then_returns 1 = Returns ''ok''
   \<and> fst (wrapper cpython_sleep 2 (- 1) fails_then_returns) \<noteq> Returned ''ok''"
proof -
  have m: "(10000000000::real) \<le> max_double"
  proof -
    have "(10000000000::real) \<le> 1 * 2 ^ 971"
      by (rule order_trans [of _ "2 ^ 40"]) simp_all
    also have "\<dots> \<le> (2 ^ 53 - 1) * 2 ^ 971" by (intro mult_mono) simp_all
    finally show ?thesis by (simp only: max_double_def)
  qed
  then have p: "float_product (- 1) 0 = Finite (- 1)" "float_product 10000000000 0 = Finite 10000000000"
    using float_product_exact [of "- 1" 0] float_product_exact [of 10000000000 0] by simp_all
  show ?thesis
    by (simp add: wrapper_def wrapper_loop.simps fails_then_returns_def p cpython_sleep_def)
qed

text \<open>
  Claim C10. With \<open>max_retries \<le> 0\<close> the wrapper does not invoke the function and
  raises at once from \<^verbatim>\<open>raise last_exception\<close> with \<^verbatim>\<open>None\<close>; with
  \<open>max_retries \<ge> 1\<close> that error is never the result.
\<close>

theorem retry_nonpositive_raises:
  "(max_retries \<le> 0 \<longrightarrow> wrapper time_sleep max_retries base_delay func = (RaiseNone_TypeError, []))
   \<and> (1 \<le> max_retries \<longrightarrow> fst (wrapper time_sleep max_retries base_delay func) \<noteq> RaiseNone_TypeError)"
proof (intro conjI impI)
  assume "max_retries \<le> 0"
  then show "wrapper time_sleep max_retries base_delay func = (RaiseNone_TypeError, [])"
    by (simp add: wrapper_def loop_done)
next
  assume pos: "1 \<le> max_retries"
  then have lt: "int 0 < max_retries" by simp
  from lt show "fst (wrapper time_sleep max_retries base_delay func) \<noteq> RaiseNone_TypeError"
  proof (cases rule: loop_cases [where ts = time_sleep and bd = base_delay and func = func
                                  and le = None and tr = "[]"])
    case (stop r)
    then show ?thesis by (simp add: wrapper_def)
  next
    case (last e)
    with loop_not_none [of "Some e" time_sleep max_retries base_delay func "Suc 0" "[] @ [Invoke]"]
    show ?thesis by (simp add: wrapper_def)
  next
    case (slept e)
    with loop_not_none [of "Some e" time_sleep max_retries base_delay func "Suc 0"
                           "[] @ [Invoke, Sleep (float_product base_delay 0)]"]
    show ?thesis by (simp add: wrapper_def)
  qed
qed

theorem retry_nonpositive_raises_witness:
  "wrapper cpython_sleep 0 2 fails_then_returns = (RaiseNone_TypeError, [])
   \<and> fst (wrapper cpython_sleep 3 2 fails_then_returns) \<noteq> RaiseNone_TypeError"
  using retry_nonpositive_raises [of 0 cpython_sleep 2 fails_then_returns]
        retry_nonpositive_raises [of 3 cpython_sleep 2 fails_then_returns]
  by simp

section \<open>Properties of the JSON parser\<close>

lemma part_refl: "\<exists>pre suf. s = pre @ s @ suf"
proof -
  have "s = [] @ s @ []" by simp
  then show ?thesis by blast
qed

lemma strip_part: "\<exists>pre suf. s = pre @ strip s @ suf"
proof -
  define a where "a = dropWhile isspace s"
  define t where "t = rev (takeWhile isspace (rev a))"
  have 1: "s = takeWhile isspace s @ a" by (simp add: a_def)
  have "rev a = takeWhile isspace (rev a) @ dropWhile isspace (rev a)" by simp
  then have "rev (rev a) = rev (takeWhile isspace (rev a) @ dropWhile isspace (rev a))"
    by (rule arg_cong)
  then have 2: "a = strip s @ t"
    by (simp only: rev_append rev_rev_ident strip_def a_def t_def)
  have "s = takeWhile isspace s @ strip s @ t"
    using 1 by (simp only: 2 [symmetric])
  then show ?thesis by blast
qed

lemma drop_part: "\<exists>pre suf. s = pre @ drop n s @ suf"
proof -
  have "s = take n s @ drop n s @ []" by simp
  then show ?thesis by blast
qed

lemma take_part: "\<exists>pre suf. s = pre @ take n s @ suf"
proof -
  have "s = [] @ take n s @ drop n s" by simp
  then show ?thesis by blast
qed

lemma part_trans:
  assumes "\<exists>pre suf. s = pre @ t @ suf" "\<exists>pre suf. t = pre @ u @ suf"
  shows "\<exists>pre suf. s = pre @ u @ suf"
proof -
  from assms obtain p1 s1 p2 s2 where "s = p1 @ t @ s1" "t = p2 @ u @ s2" by blast
  then have "s = (p1 @ p2) @ u @ (s2 @ s1)" by simp
  then show ?thesis by blast
qed

lemma cleaned_steps: "cleaned response = strip_suffix (strip_prefix (strip response))"
  by (simp only: cleaned_def Let_def strip_prefix_def strip_suffix_def)

lemma strip_prefix_part: "\<exists>pre suf. r = pre @ strip_prefix r @ suf"
  unfolding strip_prefix_def
  by (simp only: drop_part part_refl if_split [where P = "\<lambda>x. \<exists>pre suf. r = pre @ x @ suf"]) simp

lemma strip_suffix_part: "\<exists>pre suf. r = pre @ strip_suffix r @ suf"
  unfolding strip_suffix_def
  by (simp only: take_part part_refl if_split [where P = "\<lambda>x. \<exists>pre suf. r = pre @ x @ suf"]) simp

lemma cleaned_part: "\<exists>pre suf. response = pre @ cleaned response @ suf"
  unfolding cleaned_steps
  by (rule part_trans [OF part_trans [OF strip_part strip_prefix_part] strip_suffix_part])

lemma cleaned_id:
  assumes "strip response = response" "\<not> startswith response ''```''" "\<not> endswith response ''```''"
  shows "cleaned response = response"
proof -
  have l7: "length ''```json'' = 7" and l3: "length ''```'' = 3" by simp_all
  have "\<not> startswith response ''```json''"
  proof
    assume "startswith response ''```json''"
    then have a: "take 7 response = ''```json''" by (simp only: startswith_def l7)
    have "take 3 response = take 3 (take 7 response)" by (simp add: min_def)
    also have "\<dots> = take 3 ''```json''" by (simp only: a)
    also have "\<dots> = ''```''" by simp
    finally have "startswith response ''```''" by (simp only: startswith_def l3)
    with assms(2) show False by simp
  qed
  then have p: "strip_prefix response = response"
    using assms(2) by (simp only: strip_prefix_def if_False)
  have q: "strip_suffix response = response"
    using assms(3) by (simp only: strip_suffix_def if_False)
  show ?thesis by (simp only: cleaned_steps assms(1) p q)
qed

text \<open>
  Claim C2, with the text that the fallback holds. When decoding the cleaned text raises
  \<^verbatim>\<open>JSONDecodeError\<close>, the parser returns the dictionary with the single key
  \<open>raw_response\<close>, whose value is the cleaned text; when decoding succeeds it returns
  the decoded value. The cleaned text is a contiguous part of the input, and it is the
  input itself when the input has no surrounding whitespace and no code fence at either
  end.
\<close>

theorem parse_json_fallback:
  "(loads (strip (cleaned response)) = Inl JSONDecodeError \<longrightarrow>
      parse_json loads response = Inr (Dict [(''raw_response'', cleaned response)]))
   \<and> (loads (strip (cleaned response)) = Inr v \<longrightarrow> parse_json loads response = Inr (Decoded v))
   \<and> (\<exists>pre suf. response = pre @ cleaned response @ suf)
   \<and> (strip response = response \<and> \<not> startswith response ''```'' \<and> \<not> endswith response ''```''
        \<longrightarrow> cleaned response = response)"
  using cleaned_part [of response] cleaned_id [of response]
  by (simp add: parse_json_def Let_def)

theorem parse_json_fallback_witness:
  "parse_json loads_fails ''{bad'' = Inr (Dict [(''raw_response'', ''{bad'')])
   \<and> parse_json loads_one ''```json 1 ```'' = Inr (Decoded 1)"
proof -
  have c1: "cleaned ''{bad'' = ''{bad''"
    by (simp add: cleaned_def strip_def isspace_def startswith_def endswith_def)
  have c2: "strip (cleaned ''```json 1 ```'') = ''1''"
    by (simp add: cleaned_def strip_def isspace_def startswith_def endswith_def)
  from parse_json_fallback [of loads_fails "''{bad''" 0] parse_json_fallback [of loads_one "''```json 1 ```''" 1]
  show ?thesis
    by (simp add: c1 c2 loads_fails_def loads_one_def)
qed

text \<open>
  Claim C2 as stated, with the input text as the value, fails: on a fenced response that
  does not decode, the value under \<open>raw_response\<close> is the text without its fences.
\<close>

theorem parse_json_raw_text_counterexample:
  "loads_fails (strip (cleaned ''```json{bad```'')) = Inl JSONDecodeError
   \<and> parse_json loads_fails ''```json{bad```'' = Inr (Dict [(''raw_response'', ''{bad'')])
   \<and> parse_json loads_fails ''```json{bad```'' \<noteq> Inr (Dict [(''raw_response'', ''```json{bad```'')])"
  by (simp add: parse_json_def cleaned_def strip_def isspace_def startswith_def endswith_def
        loads_fails_def Let_def)

section \<open>Properties of the profile suggestion\<close>

lemma contains_iff: "contains kw d \<longleftrightarrow> (\<exists>pre suf. d = pre @ kw @ suf)"
proof (induction d)
  case Nil
  show ?case by auto
next
  case (Cons c cs)
  show ?case
  proof
    assume "contains kw (c # cs)"
    then consider "take (length kw) (c # cs) = kw" | "contains kw cs" by auto
    then show "\<exists>pre suf. c # cs = pre @ kw @ suf"
    proof cases
      case 1
      then have "c # cs = [] @ kw @ drop (length kw) (c # cs)"
        by (metis append_Nil append_take_drop_id)
      then show ?thesis by blast
    next
      case 2
      with Cons.IH obtain pre suf where "cs = pre @ kw @ suf" by blast
      then have "c # cs = (c # pre) @ kw @ suf" by simp
      then show ?thesis by blast
    qed
  next
    assume "\<exists>pre suf. c # cs = pre @ kw @ suf"
    then obtain pre suf where e: "c # cs = pre @ kw @ suf" by blast
    show "contains kw (c # cs)"
    proof (cases pre)
      case Nil
      with e have "take (length kw) (c # cs) = kw" by simp
      then show ?thesis by simp
    next
      case (Cons a pre')
      with e have "cs = pre' @ kw @ suf" by simp
      with Cons.IH have "contains kw cs" by blast
      then show ?thesis by simp
    qed
  qed
qed

lemma max_from_mem: "max_from b es \<in> set (b # es)"
  by (induction es arbitrary: b) auto

lemma max_from_greatest: "\<forall>x \<in> set (b # es). snd x \<le> snd (max_from b es)"
proof (induction es arbitrary: b)
  case Nil show ?case by simp
next
  case (Cons e es)
  show ?case
  proof (cases "snd b < snd e")
    case True
    from Cons.IH [of e] have h: "\<forall>x \<in> set (e # es). snd x \<le> snd (max_from e es)" .
    then have "snd e \<le> snd (max_from e es)" by simp
    with True have "snd b \<le> snd (max_from e es)" by linarith
    with h True show ?thesis by simp
  next
    case False
    from Cons.IH [of b] have h: "\<forall>x \<in> set (b # es). snd x \<le> snd (max_from b es)" .
    then have "snd b \<le> snd (max_from b es)" by simp
    with False have "snd e \<le> snd (max_from b es)" by linarith
    with h False show ?thesis by simp
  qed
qed

lemma count_keywords_card:
  "distinct kws \<Longrightarrow> count_keywords kws d = int (card {kw \<in> set kws. contains kw d})"
proof -
  assume "distinct kws"
  then have "length (filter (\<lambda>kw. contains kw d) kws) = card ({kw. contains kw d} \<inter> set kws)"
    by (rule distinct_length_filter)
  moreover have "{kw. contains kw d} \<inter> set kws = {kw \<in> set kws. contains kw d}" by auto
  ultimately show ?thesis by (simp add: count_keywords_def)
qed

lemma count_keywords_pos: "0 < count_keywords kws d \<longleftrightarrow> (\<exists>kw \<in> set kws. contains kw d)"
  by (auto simp: count_keywords_def filter_empty_conv)

lemma count_keywords_nonneg: "0 \<le> count_keywords kws d"
  by (simp add: count_keywords_def)

lemma scores_of_mem:
  assumes "x \<in> set (scores_of km d)"
  shows "\<exists>p kws. (p, kws) \<in> set km \<and> x = (p, count_keywords kws d)"
  using assms by (auto simp: scores_of_def)

lemma scores_of_snd:
  assumes "(q, ks) \<in> set km"
  shows "(q, count_keywords ks d) \<in> set (scores_of km d)"
  using assms by (force simp: scores_of_def)

lemma suggest_from_spec:
  assumes "km \<noteq> []" "(''web_app'', w) \<in> set km"
  shows "\<exists>p kws. suggest_from km d = Inr p \<and> (p, kws) \<in> set km
      \<and> ((\<exists>(q, ks) \<in> set km. \<exists>kw \<in> set ks. contains kw (lower d)) \<longrightarrow>
            0 < count_keywords kws (lower d)
          \<and> (\<forall>(q, ks) \<in> set km. count_keywords ks (lower d) \<le> count_keywords kws (lower d)))
      \<and> ((\<forall>(q, ks) \<in> set km. \<forall>kw \<in> set ks. \<not> contains kw (lower d)) \<longrightarrow> p = ''web_app'')"
proof -
  from assms(1) have "scores_of km (lower d) \<noteq> []" by (simp add: scores_of_def)
  then obtain s ss where sc: "scores_of km (lower d) = s # ss" by (cases "scores_of km (lower d)") auto
  define best where "best = max_from s ss"
  have res: "suggest_from km d = Inr (if snd best > 0 then fst best else ''web_app'')"
    by (simp add: suggest_from_def Let_def sc best_def)
  have "best \<in> set (scores_of km (lower d))"
    unfolding best_def sc by (rule max_from_mem)
  from scores_of_mem [OF this] obtain p kws where
    pk: "(p, kws) \<in> set km" "best = (p, count_keywords kws (lower d))" by blast
  have gr: "\<forall>x \<in> set (scores_of km (lower d)). snd x \<le> snd best"
    unfolding best_def sc by (rule max_from_greatest)
  have mx: "\<forall>(q, ks) \<in> set km. count_keywords ks (lower d) \<le> snd best"
  proof (intro ballI, clarify)
    fix q ks assume "(q, ks) \<in> set km"
    from scores_of_snd [OF this, of "lower d"] gr show "count_keywords ks (lower d) \<le> snd best"
      by force
  qed
  show ?thesis
  proof (cases "snd best > 0")
    case True
    with res pk have r: "suggest_from km d = Inr p" by simp
    from True pk have pos: "0 < count_keywords kws (lower d)" by simp
    then have occ: "\<exists>kw \<in> set kws. contains kw (lower d)" by (simp only: count_keywords_pos)
    have none: "\<not> (\<forall>(q, ks) \<in> set km. \<forall>kw \<in> set ks. \<not> contains kw (lower d))"
      using pk(1) occ by blast
    from mx pk(2) have mx': "\<forall>(q, ks) \<in> set km. count_keywords ks (lower d) \<le> count_keywords kws (lower d)"
      by simp
    from r pk(1) pos mx' none show ?thesis by blast
  next
    case False
    with res have r: "suggest_from km d = Inr ''web_app''" by simp
    have none: "\<not> (\<exists>(q, ks) \<in> set km. \<exists>kw \<in> set ks. contains kw (lower d))"
    proof
      assume "\<exists>(q, ks) \<in> set km. \<exists>kw \<in> set ks. contains kw (lower d)"
      then obtain q ks where q: "(q, ks) \<in> set km" "\<exists>kw \<in> set ks. contains kw (lower d)" by blast
      from q(2) have "0 < count_keywords ks (lower d)" by (simp only: count_keywords_pos)
      moreover from mx q(1) have "count_keywords ks (lower d) \<le> snd best" by blast
      ultimately show False using False by linarith
    qed
    from r assms(2) none show ?thesis by blast
  qed
qed

lemma keyword_map_facts:
  "keyword_map \<noteq> []"
  "(''web_app'', [''website'', ''web app'', ''dashboard'', ''portal'', ''saas'', ''frontend'',
                     ''react'', ''vue'']) \<in> set keyword_map"
  "\<forall>(q, ks) \<in> set keyword_map. distinct ks"
  "distinct (map fst keyword_map)"
  by (simp_all add: keyword_map_def)

text \<open>
  Claim C5. \<^verbatim>\<open>suggest_profile\<close> returns a key of the keyword table. If some keyword of
  the table is a substring of the lowercased description, the profile returned has at
  least one matching keyword and no profile has more matching keywords, each keyword
  counted once; if none is, the result is \<open>web_app\<close>. (\<open>contains\<close> is the substring
  relation, lemma \<open>contains_iff\<close>.)
\<close>

theorem suggest_profile_spec:
  "\<exists>p kws. suggest_profile d = Inr p \<and> (p, kws) \<in> set keyword_map
      \<and> ((\<exists>(q, ks) \<in> set keyword_map. \<exists>kw \<in> set ks. contains kw (lower d)) \<longrightarrow>
            0 < card {kw \<in> set kws. contains kw (lower d)}
          \<and> (\<forall>(q, ks) \<in> set keyword_map.
                card {kw \<in> set ks. contains kw (lower d)} \<le> card {kw \<in> set kws. contains kw (lower d)}))
      \<and> ((\<forall>(q, ks) \<in> set keyword_map. \<forall>kw \<in> set ks. \<not> contains kw (lower d)) \<longrightarrow> p = ''web_app'')"
proof -
  from suggest_from_spec [OF keyword_map_facts(1,2), of d] obtain p kws where
    h: "suggest_from keyword_map d = Inr p" "(p, kws) \<in> set keyword_map"
       "(\<exists>(q, ks) \<in> set keyword_map. \<exists>kw \<in> set ks. contains kw (lower d)) \<longrightarrow>
            0 < count_keywords kws (lower d)
          \<and> (\<forall>(q, ks) \<in> set keyword_map. count_keywords ks (lower d) \<le> count_keywords kws (lower d))"
       "(\<forall>(q, ks) \<in> set keyword_map. \<forall>kw \<in> set ks. \<not> contains kw (lower d)) \<longrightarrow> p = ''web_app''"
    by blast
  have c: "\<And>q ks. (q, ks) \<in> set keyword_map \<Longrightarrow>
             count_keywords ks (lower d) = int (card {kw \<in> set ks. contains kw (lower d)})"
  proof -
    fix q ks assume "(q, ks) \<in> set keyword_map"
    with keyword_map_facts(3) have "distinct ks" by blast
    then show "count_keywords ks (lower d) = int (card {kw \<in> set ks. contains kw (lower d)})"
      by (rule count_keywords_card)
  qed
  have h3: "(\<exists>(q, ks) \<in> set keyword_map. \<exists>kw \<in> set ks. contains kw (lower d)) \<longrightarrow>
            0 < card {kw \<in> set kws. contains kw (lower d)}
          \<and> (\<forall>(q, ks) \<in> set keyword_map.
                card {kw \<in> set ks. contains kw (lower d)} \<le> card {kw \<in> set kws. contains kw (lower d)})"
  proof
    assume "\<exists>(q, ks) \<in> set keyword_map. \<exists>kw \<in> set ks. contains kw (lower d)"
    with h(3) have a: "0 < count_keywords kws (lower d)"
      and b: "\<forall>(q, ks) \<in> set keyword_map. count_keywords ks (lower d) \<le> count_keywords kws (lower d)"
      by blast+
    from a c [OF h(2)] have a': "0 < card {kw \<in> set kws. contains kw (lower d)}" by simp
    have b': "\<forall>(q, ks) \<in> set keyword_map.
                card {kw \<in> set ks. contains kw (lower d)} \<le> card {kw \<in> set kws. contains kw (lower d)}"
    proof (intro ballI, clarify)
      fix q ks assume m: "(q, ks) \<in> set keyword_map"
      with b have "count_keywords ks (lower d) \<le> count_keywords kws (lower d)" by blast
      with c [OF m] c [OF h(2)]
      show "card {kw \<in> set ks. contains kw (lower d)} \<le> card {kw \<in> set kws. contains kw (lower d)}"
        by simp
    qed
    from a' b' show "0 < card {kw \<in> set kws. contains kw (lower d)}
          \<and> (\<forall>(q, ks) \<in> set keyword_map.
                card {kw \<in> set ks. contains kw (lower d)} \<le> card {kw \<in> set kws. contains kw (lower d)})"
      by (rule conjI)
  qed
  have r: "suggest_profile d = Inr p" using h(1) by (simp add: suggest_profile_def)
  from r h(2) h3 h(4) show ?thesis by blast
qed

lemma suggest_rest_api: "suggest_profile ''Build a REST API server'' = Inr ''api_backend''"
  by code_simp

lemma suggest_hello: "suggest_profile ''hello'' = Inr ''web_app''"
  by code_simp

theorem suggest_profile_spec_witness:
  "suggest_profile ''Build a REST API server'' = Inr ''api_backend''
   \<and> suggest_profile ''hello'' = Inr ''web_app''"
  using suggest_profile_spec [of "''Build a REST API server''"] suggest_profile_spec [of "''hello''"]
    suggest_rest_api suggest_hello
  by simp

section \<open>Properties of the parallel code generation\<close>




























end
